theory Spec2Isabelle
  imports Complex_Main "HOL-Library.Word" "HOL-Library.Multiset" "HOL-Library.Log_Nat"
begin

section \<open>The sense-filter-actuate pipeline of \<open>assignment5/src/main.c\<close>\<close>

text \<open>
  The program has three threads. Thread A samples the ADC once per period and stores a
  valid reading in the global \<open>ab\<close>; thread B keeps the array \<open>dados\<close> of ten
  samples and reduces it to the global \<open>bc\<close> by a two-pass average; thread C turns
  \<open>bc\<close> into a PWM pulse width. Each loop body is embedded below as a function from
  the state before one iteration to the state after it.

  C's \<open>int\<close> is modelled by \<open>int\<close>, which agrees with the 32-bit type as long as
  no sum leaves its range: the properties of the averages are stated for arrays of raw
  samples, values from 0 to 1023, where every sum is at most 10230. \<open>uint16_t\<close>,
  \<open>unsigned int\<close> and \<open>int64_t\<close> are words of that width; the \<open>double\<close>
  arithmetic of the trimming band is binary64 with round-to-nearest-even written out.
\<close>

subsection \<open>Constants\<close>

definition dados_size :: nat where
  "dados_size = 10"

definition SAMP_PERIOD_MS :: "64 word" where
  "SAMP_PERIOD_MS = 1000"

definition pwmPeriod_us :: "32 word" where
  "pwmPeriod_us = 1000"

subsection \<open>Semaphores\<close>

text \<open>
  Both semaphores are created by \<open>k_sem_init(&sem, 0, 1)\<close>: initial count 0 and
  limit 1. Giving a semaphore raises the count unless it is at the limit.
\<close>

definition sem_limit :: nat where
  "sem_limit = 1"

definition k_sem_give :: "nat \<Rightarrow> nat" where
  "k_sem_give n = (if n < sem_limit then n + 1 else n)"

subsection \<open>Thread A: sampling\<close>

text \<open>
  The part of the shared state that thread A writes: the global \<open>ab\<close> and the count of
  \<open>sem_ab\<close>.
\<close>

record chan_ab =
  ab :: int
  sem_ab :: nat

definition chan_ab_init :: chan_ab where
  "chan_ab_init = \<lparr>ab = 0, sem_ab = 0\<rparr>"

text \<open>
  One pass through the sampling part of the loop of \<open>thread_A_code\<close>. The result of
  \<open>adc_sample()\<close> is the pair of its return code \<open>err\<close> and the content \<open>buf\<close>
  of \<open>adc_sample_buffer[0]\<close> afterwards. The \<open>k_sem_give\<close> stands after the
  conditional, outside both branches.
\<close>

definition thread_A_sample :: "int \<Rightarrow> 16 word \<Rightarrow> chan_ab \<Rightarrow> chan_ab" where
  "thread_A_sample err buf s =
     (let s1 = (if err \<noteq> 0 then s
                else if buf > 1023 then s
                else s\<lparr>ab := uint buf\<rparr>)
      in s1\<lparr>sem_ab := k_sem_give (sem_ab s1)\<rparr>)"

text \<open>
  The end of the loop body: \<open>fin_time\<close> is the uptime read after the give. The result is
  the argument of \<open>k_msleep\<close>, if it is called, and the new \<open>release_time\<close>.
\<close>

definition thread_A_wait :: "64 word \<Rightarrow> 64 word \<Rightarrow> 64 word option \<times> 64 word" where
  "thread_A_wait fin_time release_time =
     (if fin_time <s release_time
      then (Some (release_time - fin_time), release_time + SAMP_PERIOD_MS)
      else (None, release_time))"

subsection \<open>Thread B: the window\<close>

text \<open>
  The array \<open>dados\<close> is a list of length \<open>dados_size\<close>. A \<open>for\<close> loop over an
  index range is a fold over that range; the shifting loop runs from
  \<open>dados_size - 1\<close> down to 1.
\<close>

definition dados_init :: "int list" where
  "dados_init = replicate dados_size 0"

definition shift_loop :: "int list \<Rightarrow> int list" where
  "shift_loop dados = fold (\<lambda>l d. d[l := d ! (l - 1)]) (rev [1 ..< dados_size]) dados"

definition rotate_in :: "int \<Rightarrow> int list \<Rightarrow> int list" where
  "rotate_in ab_val dados =
     (let d0 = dados[0 := ab_val];
          x = d0 ! (dados_size - 1);
          d1 = shift_loop d0
      in d1[0 := x])"

subsection \<open>Thread B: the two averages\<close>

text \<open>
  C's integer division truncates towards zero. The sums and counts of the two loops are
  32-bit in the source and unbounded here; on an array of raw samples they stay between
  0 and 10230.
\<close>

definition c_div :: "int \<Rightarrow> int \<Rightarrow> int" where
  "c_div a b = (if (a < 0) = (b < 0) then \<bar>a\<bar> div \<bar>b\<bar> else - (\<bar>a\<bar> div \<bar>b\<bar>))"

definition pass1_loop :: "int list \<Rightarrow> int \<times> int" where
  "pass1_loop dados =
     fold (\<lambda>i (sum1, cnt1). if dados ! i \<noteq> 0 then (sum1 + dados ! i, cnt1 + 1) else (sum1, cnt1))
          [0 ..< dados_size] (0, 0)"

definition avg_of :: "int \<times> int \<Rightarrow> int" where
  "avg_of sc = (case sc of (sm, cnt) \<Rightarrow> if cnt \<noteq> 0 then c_div sm cnt else 0)"

definition pass1 :: "int list \<Rightarrow> int" where
  "pass1 dados = avg_of (pass1_loop dados)"

subsection \<open>Binary64 arithmetic\<close>

text \<open>
  The trimming test \<open>dados[j] < (Avg - Avg*0.1) || dados[j] > (Avg + Avg*0.1)\<close> is
  evaluated in \<open>double\<close>: the literal \<open>0.1\<close> has that type, so \<open>Avg\<close> and
  \<open>dados[j]\<close> are converted to it. A finite binary64 value is a pair of an integer
  mantissa and an exponent, standing for \<open>mant * 2 ^ expo\<close>; the result of an operation
  is the exact result rounded to 53 significant bits, to the nearest value and to the even
  mantissa on a tie. The exponent range of the format is not modelled: every value that
  occurs is zero or has a magnitude between \<open>2 ^ -4\<close> and \<open>2 ^ 32\<close>.
\<close>

datatype double = Double (mant: int) (expo: int)

definition dval :: "double \<Rightarrow> real" where
  "dval x = of_int (mant x) * 2 powi expo x"

definition round_shift :: "int \<Rightarrow> nat \<Rightarrow> int" where
  "round_shift m k =
     (let q = m div 2 ^ k; r = m mod 2 ^ k
      in if 2 * r < 2 ^ k then q
         else if 2 ^ k < 2 * r then q + 1
         else if even q then q else q + 1)"

definition round53 :: "int \<Rightarrow> int \<Rightarrow> double" where
  "round53 m e =
     (let k = bitlen \<bar>m\<bar> - 53
      in if k \<le> 0 then Double m e else Double (round_shift m (nat k)) (e + k))"

definition double_of_int :: "int \<Rightarrow> double" where
  "double_of_int a = round53 a 0"

text \<open>The literal \<open>0.1\<close>: the binary64 value nearest to one tenth.\<close>

definition lit_0_1 :: double where
  "lit_0_1 = Double 3602879701896397 (- 55)"

definition dmul :: "double \<Rightarrow> double \<Rightarrow> double" where
  "dmul x y = round53 (mant x * mant y) (expo x + expo y)"

definition align :: "double \<Rightarrow> int \<Rightarrow> int" where
  "align x e = mant x * 2 ^ nat (expo x - e)"

definition dadd :: "double \<Rightarrow> double \<Rightarrow> double" where
  "dadd x y = (let e = min (expo x) (expo y) in round53 (align x e + align y e) e)"

definition dsub :: "double \<Rightarrow> double \<Rightarrow> double" where
  "dsub x y = (let e = min (expo x) (expo y) in round53 (align x e - align y e) e)"

definition dless :: "double \<Rightarrow> double \<Rightarrow> bool" where
  "dless x y = (let e = min (expo x) (expo y) in align x e < align y e)"

subsection \<open>Thread B: the second pass and the whole iteration\<close>

definition band_lo :: "int \<Rightarrow> double" where
  "band_lo Avg = dsub (double_of_int Avg) (dmul (double_of_int Avg) lit_0_1)"

definition band_hi :: "int \<Rightarrow> double" where
  "band_hi Avg = dadd (double_of_int Avg) (dmul (double_of_int Avg) lit_0_1)"

definition outside_band :: "int \<Rightarrow> int \<Rightarrow> bool" where
  "outside_band Avg d =
     (dless (double_of_int d) (band_lo Avg) \<or> dless (band_hi Avg) (double_of_int d))"

definition pass2_loop :: "int \<Rightarrow> int list \<Rightarrow> int \<times> int" where
  "pass2_loop Avg dados =
     fold (\<lambda>j (sum2, cnt2). if outside_band Avg (dados ! j) then (sum2, cnt2)
                             else (sum2 + dados ! j, cnt2 + 1))
          [0 ..< dados_size] (0, 0)"

definition pass2 :: "int \<Rightarrow> int list \<Rightarrow> int" where
  "pass2 Avg dados = avg_of (pass2_loop Avg dados)"

text \<open>
  The averages of one iteration: \<open>Avg\<close> holds the first average during the second loop
  and is overwritten by the second one, which is stored in \<open>bc\<close>.
\<close>

definition filter_value :: "int list \<Rightarrow> int" where
  "filter_value dados = pass2 (pass1 dados) dados"

text \<open>
  The part of the state that thread B writes: its array, the global \<open>bc\<close> and the count
  of \<open>sem_bc\<close>. One iteration takes the value of \<open>ab\<close> it reads.
\<close>

record chan_bc =
  window :: "int list"
  bc :: int
  sem_bc :: nat

definition chan_bc_init :: chan_bc where
  "chan_bc_init = \<lparr>window = dados_init, bc = 0, sem_bc = 0\<rparr>"

definition thread_B_step :: "int \<Rightarrow> chan_bc \<Rightarrow> chan_bc" where
  "thread_B_step ab_val s =
     (let d = rotate_in ab_val (window s)
      in \<lparr>window = d, bc = filter_value d, sem_bc = k_sem_give (sem_bc s)\<rparr>)"

subsection \<open>Thread C: the pulse width\<close>

text \<open>
  The pulse argument of \<open>pwm_pin_set_usec\<close> is
  \<open>(unsigned int)((pwmPeriod_us*bc)/1023)\<close>: \<open>bc\<close> is converted to
  \<open>unsigned int\<close>, and product and quotient are unsigned 32-bit operations.
\<close>

definition pulse_width :: "int \<Rightarrow> 32 word" where
  "pulse_width bc_val = (pwmPeriod_us * word_of_int bc_val) div 1023"

section \<open>Properties\<close>

subsection \<open>The release instant\<close>

text \<open>
  Once a cycle ends at or after its release instant, the release instant stays where it
  is, and a later cycle, which ends no earlier, does not sleep either.
\<close>

lemma overrun_persists:
  assumes "release_time \<le>s fin_time" "fin_time \<le>s fin_time'"
  shows "thread_A_wait fin_time release_time = (None, release_time)"
    and "thread_A_wait fin_time' (snd (thread_A_wait fin_time release_time)) = (None, release_time)"
  using assms by (auto simp: thread_A_wait_def word_sless_alt word_sle_eq)

subsection \<open>The pulse width\<close>

lemma pulse_product:
  assumes "0 \<le> b" "b \<le> 1023"
  shows "uint (pwmPeriod_us * word_of_int b) = 1000 * b"
proof -
  have "uint (pwmPeriod_us * word_of_int b) = (1000 * b) mod 2 ^ 32"
    by (simp add: pwmPeriod_us_def uint_word_ariths uint_word_of_int mod_mult_right_eq)
  also have "\<dots> = 1000 * b"
    using assms by simp
  finally show ?thesis .
qed

lemma pulse_width_uint:
  assumes "0 \<le> b" "b \<le> 1023"
  shows "uint (pulse_width b) = (1000 * b) div 1023"
  by (simp add: pulse_width_def uint_div pulse_product [OF assms])

subsection \<open>Rounding to 53 bits\<close>

text \<open>
  The rounded mantissa is within half a unit of the exact quotient, so a multiple of the
  unit that is closer than half a unit is the result.
\<close>

lemma round_shift_err: "\<bar>round_shift m k * 2 ^ k - m\<bar> * 2 \<le> 2 ^ k"
proof -
  define q where "q = m div 2 ^ k"
  define r where "r = m mod 2 ^ k"
  have m: "m = q * 2 ^ k + r"
    unfolding q_def r_def by (rule div_mult_mod_eq [symmetric])
  have r: "0 \<le> r" "r < 2 ^ k"
    by (simp_all add: r_def)
  have rs: "round_shift m k = q \<and> 2 * r \<le> 2 ^ k \<or> round_shift m k = q + 1 \<and> 2 ^ k \<le> 2 * r"
    by (auto simp: round_shift_def Let_def q_def r_def)
  then show ?thesis
  proof
    assume "round_shift m k = q \<and> 2 * r \<le> 2 ^ k"
    then show ?thesis using m r by simp
  next
    assume a: "round_shift m k = q + 1 \<and> 2 ^ k \<le> 2 * r"
    then have "round_shift m k * 2 ^ k - m = 2 ^ k - r"
      using m by (simp add: algebra_simps)
    then show ?thesis using a r by simp
  qed
qed

lemma round_shift_exact:
  assumes "\<bar>t * 2 ^ k - m\<bar> * 2 < 2 ^ k"
  shows "round_shift m k = t"
proof -
  have "\<bar>(round_shift m k - t) * 2 ^ k\<bar> * 2 \<le> \<bar>round_shift m k * 2 ^ k - m\<bar> * 2 + \<bar>t * 2 ^ k - m\<bar> * 2"
  proof -
    have tri: "\<bar>a - b\<bar> * 2 \<le> \<bar>a - c\<bar> * 2 + \<bar>b - c\<bar> * 2" for a b c :: int
      by (simp add: abs_if)
    show ?thesis
      unfolding left_diff_distrib by (rule tri)
  qed
  also have "\<dots> < 2 ^ k + 2 ^ k"
    using round_shift_err [of m k] assms by linarith
  finally have "\<bar>round_shift m k - t\<bar> * (2 ^ k :: int) < 2 ^ k"
    by (simp add: abs_mult)
  then have "\<bar>round_shift m k - t\<bar> < 1"
    by (smt (verit) mult_le_cancel_right1 zero_less_power)
  then show ?thesis by simp
qed

lemma two_powi_add: "(2::real) powi (a + b) = 2 powi a * 2 powi b"
  by (simp add: power_int_add)

lemma two_powi_nat: "0 \<le> k \<Longrightarrow> (2::real) powi k = 2 ^ nat k"
  by (simp add: power_int_def)

lemma two_powi_cancel: "(2::real) powi a * 2 powi (- a) = 1"
  by (simp add: two_powi_add [symmetric])

lemma round53_small: "bitlen \<bar>m\<bar> \<le> 53 \<Longrightarrow> round53 m e = Double m e"
  by (simp add: round53_def)

lemma dval_Double: "dval (Double m e) = of_int m * 2 powi e"
  by (simp add: dval_def)

lemma dval_round53_big:
  assumes "53 < bitlen \<bar>m\<bar>"
  shows "dval (round53 m e) =
    of_int (round_shift m (nat (bitlen \<bar>m\<bar> - 53)) * 2 ^ nat (bitlen \<bar>m\<bar> - 53)) * 2 powi e"
proof -
  define k where "k = bitlen \<bar>m\<bar> - 53"
  have k: "0 < k" using assms by (simp add: k_def)
  have "dval (round53 m e) = of_int (round_shift m (nat k)) * 2 powi (e + k)"
    using k by (simp add: round53_def k_def [symmetric] dval_def)
  also have "(2::real) powi (e + k) = 2 powi e * 2 ^ nat k"
    using k by (simp add: two_powi_add two_powi_nat)
  finally show ?thesis
    by (simp add: k_def)
qed

lemma big_mantissa:
  assumes "53 < bitlen \<bar>m\<bar>"
  shows "(2::int) ^ (nat (bitlen \<bar>m\<bar> - 53) + 52) \<le> \<bar>m\<bar>"
proof -
  have "0 < \<bar>m\<bar>" using assms by (cases "m = 0") auto
  from bitlen_bounds [OF this] have "2 ^ nat (bitlen \<bar>m\<bar> - 1) \<le> \<bar>m\<bar>" ..
  moreover have "nat (bitlen \<bar>m\<bar> - 1) = nat (bitlen \<bar>m\<bar> - 53) + 52"
    using assms by simp
  ultimately show ?thesis by simp
qed

lemma dval_round53_err:
  "\<bar>dval (round53 m e) - of_int m * 2 powi e\<bar> \<le> \<bar>of_int m * 2 powi e\<bar> / 2 ^ 53"
proof (cases "bitlen \<bar>m\<bar> \<le> 53")
  case True
  then show ?thesis by (simp add: round53_small dval_Double)
next
  case False
  then have big: "53 < bitlen \<bar>m\<bar>" by simp
  define K where "K = nat (bitlen \<bar>m\<bar> - 53)"
  define rs where "rs = round_shift m K"
  have "\<bar>rs * 2 ^ K - m\<bar> * 2 \<le> 2 ^ K"
    unfolding rs_def by (rule round_shift_err)
  moreover have "(2::int) ^ K * 2 ^ 52 \<le> \<bar>m\<bar>"
    using big_mantissa [OF big] by (simp add: K_def power_add)
  ultimately have "\<bar>rs * 2 ^ K - m\<bar> * 2 ^ 53 \<le> \<bar>m\<bar>"
    by simp
  then have "real_of_int (\<bar>rs * 2 ^ K - m\<bar> * 2 ^ 53) \<le> real_of_int \<bar>m\<bar>"
    by (rule of_int_le_iff [THEN iffD2])
  then have le: "\<bar>real_of_int (rs * 2 ^ K) - real_of_int m\<bar> \<le> \<bar>real_of_int m\<bar> / 2 ^ 53"
    by (simp add: field_simps)
  have "\<bar>dval (round53 m e) - of_int m * 2 powi e\<bar>
      = \<bar>real_of_int (rs * 2 ^ K) - real_of_int m\<bar> * 2 powi e"
    unfolding dval_round53_big [OF big] K_def [symmetric] rs_def [symmetric]
    by (simp add: left_diff_distrib [symmetric] abs_mult del: of_int_mult of_int_power)
  also have "\<dots> \<le> \<bar>real_of_int m\<bar> / 2 ^ 53 * 2 powi e"
    using le by (simp add: mult_right_mono)
  finally show ?thesis
    by (simp add: abs_mult)
qed

lemma dval_round53_exact:
  assumes eq: "real_of_int m * 2 powi e = real_of_int t * 2 powi f"
    and t: "\<bar>t\<bar> < 2 ^ 53"
  shows "dval (round53 m e) = of_int m * 2 powi e"
proof (cases "bitlen \<bar>m\<bar> \<le> 53")
  case True
  then show ?thesis by (simp add: round53_small dval_Double)
next
  case False
  then have big: "53 < bitlen \<bar>m\<bar>" by simp
  define K where "K = nat (bitlen \<bar>m\<bar> - 53)"
  have K: "0 < K" using big by (simp add: K_def)
  have mK: "(2::int) ^ (K + 52) \<le> \<bar>m\<bar>"
    using big_mantissa [OF big] by (simp add: K_def)
  define d where "d = f - e"
  have md: "real_of_int m = real_of_int t * 2 powi d"
  proof -
    have "real_of_int t * 2 powi d = real_of_int t * 2 powi f * 2 powi (- e)"
      using two_powi_add [of f "- e"] by (simp add: d_def)
    also have "\<dots> = real_of_int m * (2 powi e * 2 powi (- e))"
      by (simp add: eq [symmetric])
    also have "\<dots> = real_of_int m"
      by (simp only: two_powi_cancel mult_1_right)
    finally show ?thesis by simp
  qed
  have dK: "int K \<le> d"
  proof (rule ccontr)
    assume "\<not> int K \<le> d"
    then have "d \<le> int K - 1" by simp
    then have "(2::real) powi d \<le> 2 powi (int K - 1)"
      by (intro power_int_increasing) simp_all
    also have "\<dots> = 2 ^ (K - 1)"
      using K by (simp add: two_powi_nat nat_diff_distrib)
    finally have d: "(2::real) powi d \<le> 2 ^ (K - 1)" .
    have "real_of_int \<bar>t\<bar> < real_of_int (2 ^ 53)"
      using t by (intro of_int_less_iff [THEN iffD2])
    then have "\<bar>real_of_int t\<bar> * 2 powi d < 2 ^ 53 * 2 powi d"
      by (intro mult_strict_right_mono) simp_all
    also have "\<dots> \<le> 2 ^ 53 * 2 ^ (K - 1)"
      using d by (intro mult_left_mono) simp_all
    also have "\<dots> = 2 ^ (53 + (K - 1))"
      by (simp only: power_add)
    also have "53 + (K - 1) = K + 52"
      using K by simp
    finally have "\<bar>real_of_int m\<bar> < 2 ^ (K + 52)"
      by (simp add: md abs_mult)
    moreover have "real_of_int (2 ^ (K + 52)) \<le> real_of_int \<bar>m\<bar>"
      using mK by (intro of_int_le_iff [THEN iffD2])
    ultimately show False by simp
  qed
  define D where "D = nat d - K"
  have "real_of_int m = real_of_int (t * 2 ^ nat d)"
    using dK by (simp add: md two_powi_nat)
  then have "m = t * 2 ^ nat d"
    by (rule of_int_eq_iff [THEN iffD1])
  also have "nat d = D + K"
    using dK by (simp add: D_def)
  finally have m: "m = t * 2 ^ D * 2 ^ K"
    by (simp add: power_add)
  have "round_shift m K = t * 2 ^ D"
    by (rule round_shift_exact) (simp add: m)
  then have "round_shift m K * 2 ^ K = m"
    by (simp add: m)
  then show ?thesis
    using dval_round53_big [OF big, of e] by (simp add: K_def)
qed


lemma bitlen_le_53: "\<bar>a\<bar> < 2 ^ 53 \<Longrightarrow> bitlen \<bar>a\<bar> \<le> 53"
  by (simp add: bitlen_le_iff_power)

lemma double_of_int_small: "\<bar>a\<bar> < 2 ^ 53 \<Longrightarrow> double_of_int a = Double a 0"
  unfolding double_of_int_def by (rule round53_small) (rule bitlen_le_53)

lemma dval_double_of_int: "\<bar>a\<bar> < 2 ^ 53 \<Longrightarrow> dval (double_of_int a) = of_int a"
  by (simp add: double_of_int_small dval_Double)

lemma dval_align: "e \<le> expo x \<Longrightarrow> real_of_int (align x e) * 2 powi e = dval x"
proof -
  assume "e \<le> expo x"
  then have "(2::real) ^ nat (expo x - e) = 2 powi (expo x - e)"
    by (simp add: two_powi_nat)
  then have "real_of_int (align x e) * 2 powi e = of_int (mant x) * (2 powi (expo x - e) * 2 powi e)"
    by (simp add: align_def)
  also have "(2::real) powi (expo x - e) * 2 powi e = 2 powi expo x"
    by (simp add: two_powi_add [symmetric])
  finally show ?thesis by (simp add: dval_def)
qed

lemma dless_iff: "dless x y \<longleftrightarrow> dval x < dval y"
proof -
  define e where "e = min (expo x) (expo y)"
  have "dval x < dval y \<longleftrightarrow>
      real_of_int (align x e) * 2 powi e < real_of_int (align y e) * 2 powi e"
    by (simp add: dval_align e_def)
  also have "\<dots> \<longleftrightarrow> real_of_int (align x e) < real_of_int (align y e)"
    by (rule mult_less_cancel_right_pos) simp
  also have "\<dots> \<longleftrightarrow> dless x y"
    by (simp add: dless_def e_def Let_def)
  finally show ?thesis by simp
qed

lemma dsub_exact_value:
  "real_of_int (align x (min (expo x) (expo y)) - align y (min (expo x) (expo y)))
     * 2 powi min (expo x) (expo y) = dval x - dval y"
  by (simp add: left_diff_distrib dval_align)

lemma dadd_exact_value:
  "real_of_int (align x (min (expo x) (expo y)) + align y (min (expo x) (expo y)))
     * 2 powi min (expo x) (expo y) = dval x + dval y"
  by (simp add: distrib_right dval_align)

lemma dmul_exact_value:
  "real_of_int (mant x * mant y) * 2 powi (expo x + expo y) = dval x * dval y"
  by (simp add: dval_def two_powi_add)

lemma dsub_err: "\<bar>dval (dsub x y) - (dval x - dval y)\<bar> \<le> \<bar>dval x - dval y\<bar> / 2 ^ 53"
  using dval_round53_err [of "align x (min (expo x) (expo y)) - align y (min (expo x) (expo y))"
      "min (expo x) (expo y)"]
  unfolding dsub_exact_value by (simp add: dsub_def Let_def)

lemma dadd_err: "\<bar>dval (dadd x y) - (dval x + dval y)\<bar> \<le> \<bar>dval x + dval y\<bar> / 2 ^ 53"
  using dval_round53_err [of "align x (min (expo x) (expo y)) + align y (min (expo x) (expo y))"
      "min (expo x) (expo y)"]
  unfolding dadd_exact_value by (simp add: dadd_def Let_def)

lemma dmul_err: "\<bar>dval (dmul x y) - dval x * dval y\<bar> \<le> \<bar>dval x * dval y\<bar> / 2 ^ 53"
  using dval_round53_err [of "mant x * mant y" "expo x + expo y"]
  unfolding dmul_exact_value by (simp add: dmul_def)

lemma dsub_exact:
  assumes "dval x - dval y = real_of_int t" "\<bar>t\<bar> < 2 ^ 53"
  shows "dval (dsub x y) = real_of_int t"
proof -
  define e where "e = min (expo x) (expo y)"
  have v: "real_of_int (align x e - align y e) * 2 powi e = real_of_int t"
    unfolding e_def dsub_exact_value by (rule assms(1))
  then have "real_of_int (align x e - align y e) * 2 powi e = real_of_int t * 2 powi 0"
    by simp
  from dval_round53_exact [OF this assms(2)]
  have "dval (round53 (align x e - align y e) e) = real_of_int t"
    unfolding v .
  then show ?thesis
    by (simp add: dsub_def e_def Let_def)
qed

lemma dadd_exact:
  assumes "dval x + dval y = real_of_int t" "\<bar>t\<bar> < 2 ^ 53"
  shows "dval (dadd x y) = real_of_int t"
proof -
  define e where "e = min (expo x) (expo y)"
  have v: "real_of_int (align x e + align y e) * 2 powi e = real_of_int t"
    unfolding e_def dadd_exact_value by (rule assms(1))
  then have "real_of_int (align x e + align y e) * 2 powi e = real_of_int t * 2 powi 0"
    by simp
  from dval_round53_exact [OF this assms(2)]
  have "dval (round53 (align x e + align y e) e) = real_of_int t"
    unfolding v .
  then show ?thesis
    by (simp add: dadd_def e_def Let_def)
qed


lemma dval_lit_0_1: "dval lit_0_1 = 3602879701896397 / 2 ^ 55"
  by (simp add: lit_0_1_def dval_def power_int_minus_divide)

text \<open>
  The literal written with a normalised mantissa, and its distance from one tenth, which
  is below half a unit in the last place.
\<close>

lemma lit_0_1_nearest:
  "dval lit_0_1 = 7205759403792794 * 2 powi (- 56)"
  "2 ^ 52 \<le> (7205759403792794 :: int)" "(7205759403792794 :: int) < 2 ^ 53"
  "\<bar>dval lit_0_1 - 1 / 10\<bar> < 2 powi (- 57)"
  by (simp_all add: dval_lit_0_1 power_int_minus_divide)

text \<open>
  Three known results of binary64 arithmetic, computed by the model: \<open>3 * 0.1\<close> is
  \<open>0.30000000000000004\<close> (\<open>0x3FD3333333333334\<close>), not the binary64 value nearest to
  three tenths; and the ties \<open>2 ^ 53 + 1\<close> and \<open>2 ^ 53 + 3\<close> round to the neighbours
  with an even mantissa, \<open>2 ^ 53\<close> and \<open>2 ^ 53 + 4\<close>.
\<close>

lemma binary64_examples:
  "dmul (double_of_int 3) lit_0_1 = Double 5404319552844596 (- 54)"
  "round53 9007199254740993 0 = Double 4503599627370496 1"
  "round53 9007199254740995 0 = Double 4503599627370498 1"
  by code_simp+

text \<open>
  The product of a multiple of ten with the literal is exact: \<open>10 * lit_0_1\<close> exceeds 1
  by \<open>2 ^ -54\<close>, which is less than half a unit in every binade.
\<close>

lemma dmul_tenth_exact:
  assumes "0 \<le> n" "n < 2 ^ 49"
  shows "dval (dmul (double_of_int (10 * n)) lit_0_1) = real_of_int n"
proof (cases "n = 0")
  case True
  then show ?thesis
    by (simp add: dmul_def double_of_int_small round53_small dval_Double)
next
  case False
  with assms have pos: "0 < n" by simp
  define B where "B = nat (bitlen n)"
  define m where "m = n * 36028797018963970"
  have B50: "B \<le> 50"
    using assms bitlen_le_iff_power [of n 50] by (simp add: B_def)
  have "nat (bitlen n - 1) = B - 1"
    by (simp add: B_def nat_diff_distrib bitlen_nonneg)
  with bitlen_bounds [OF pos] have lo: "2 ^ (B - 1) \<le> n" and hi: "n < 2 ^ B"
    by (simp_all add: B_def)
  have B1: "1 \<le> B"
    using hi pos by (cases B) simp_all
  have "(2::int) ^ B \<le> 2 ^ 50"
    using B50 by (intro power_increasing) simp_all
  then have p50: "(2::int) ^ B \<le> 1125899906842624"
    by simp
  have p55: "(2::int) ^ (B + 55) = 2 ^ B * 36028797018963968"
    by (simp add: power_add)
  have p54: "(2::int) ^ (B + 54) = 2 ^ (B - 1) * 36028797018963968"
  proof -
    have "B + 54 = (B - 1) + 55" using B1 by simp
    then show ?thesis by (simp only: power_add) simp
  qed
  have mpos: "0 < m" using pos by (simp add: m_def)
  have "m < 2 ^ (B + 55)"
    unfolding p55 m_def using hi p50 by linarith
  then have up: "bitlen m \<le> int B + 55"
    by (simp add: bitlen_le_iff_power nat_add_distrib)
  have "2 ^ (B + 54) \<le> m"
    unfolding p54 m_def using lo pos by linarith
  then have dn: "int B + 55 \<le> bitlen m"
    by (simp add: bitlen_ge_iff_power nat_add_distrib add.commute)
  from up dn have bl: "bitlen \<bar>m\<bar> = int B + 55"
    using mpos by simp
  then have big: "53 < bitlen \<bar>m\<bar>" by simp
  have K: "nat (bitlen \<bar>m\<bar> - 53) = B + 2"
    by (simp add: bl)
  have pk: "(2::int) ^ (50 - B) * 2 ^ (B + 2) = 2 ^ 52"
    using B50 by (simp add: power_add [symmetric])
  have rs: "round_shift m (B + 2) = n * 8 * 2 ^ (50 - B)"
  proof (rule round_shift_exact)
    have "n * 8 * 2 ^ (50 - B) * 2 ^ (B + 2) = n * 8 * (2 ^ (50 - B) * 2 ^ (B + 2))"
      by (simp only: mult.assoc)
    also have "\<dots> = n * 36028797018963968"
      unfolding pk by simp
    finally have "n * 8 * 2 ^ (50 - B) * 2 ^ (B + 2) - m = - 2 * n"
      by (simp add: m_def)
    moreover have "4 * n < 2 ^ (B + 2)"
      using hi by simp
    ultimately show "\<bar>n * 8 * 2 ^ (50 - B) * 2 ^ (B + 2) - m\<bar> * 2 < 2 ^ (B + 2)"
      using pos by simp
  qed
  have "round_shift m (B + 2) * 2 ^ (B + 2) = n * 8 * (2 ^ (50 - B) * 2 ^ (B + 2))"
    unfolding rs by (simp only: mult.assoc)
  also have "\<dots> = n * 2 ^ 55"
    unfolding pk by simp
  finally have v: "round_shift m (B + 2) * 2 ^ (B + 2) = n * 2 ^ 55" .
  have "double_of_int (10 * n) = Double (10 * n) 0"
    using assms by (intro double_of_int_small) simp
  then have "dmul (double_of_int (10 * n)) lit_0_1 = round53 m (- 55)"
    by (simp add: dmul_def lit_0_1_def m_def mult.commute)
  then have "dval (dmul (double_of_int (10 * n)) lit_0_1) = real_of_int (n * 2 ^ 55) * 2 powi (- 55)"
    using dval_round53_big [OF big, of "- 55"] unfolding K v by simp
  then show ?thesis
    by (simp add: power_int_minus_divide)
qed


lemma band_tens:
  assumes "0 \<le> n" "n < 2 ^ 40"
  shows "dval (band_lo (10 * n)) = real_of_int (9 * n)"
    and "dval (band_hi (10 * n)) = real_of_int (11 * n)"
proof -
  have n49: "n < 2 ^ 49" using assms by simp
  have a: "dval (double_of_int (10 * n)) = real_of_int (10 * n)"
    using assms by (intro dval_double_of_int) simp
  note p = dmul_tenth_exact [OF assms(1) n49]
  show "dval (band_lo (10 * n)) = real_of_int (9 * n)"
    unfolding band_lo_def using assms by (intro dsub_exact) (simp_all add: a p)
  show "dval (band_hi (10 * n)) = real_of_int (11 * n)"
    unfolding band_hi_def using assms by (intro dadd_exact) (simp_all add: a p)
qed

lemma band_near:
  assumes "0 \<le> a" "a < 2 ^ 31"
  shows "\<bar>dval (band_lo a) - 9 * real_of_int a / 10\<bar> < 1 / 10"
    and "\<bar>dval (band_hi a) - 11 * real_of_int a / 10\<bar> < 1 / 10"
proof -
  define A where "A = real_of_int a"
  define x where "x = double_of_int a"
  define p where "p = dval (dmul x lit_0_1)"
  have A: "0 \<le> A" "A < 2147483648"
    using assms by (simp_all add: A_def)
  have x: "dval x = A"
    unfolding x_def A_def using assms by (intro dval_double_of_int) simp
  have "\<bar>p - A * (3602879701896397 / 2 ^ 55)\<bar> \<le> \<bar>A * (3602879701896397 / 2 ^ 55)\<bar> / 2 ^ 53"
    using dmul_err [of x lit_0_1] by (simp only: p_def x dval_lit_0_1)
  then have p: "\<bar>p - A / 10\<bar> \<le> A / 2 ^ 52"
    using A by (simp add: abs_if split: if_splits)
  have lo: "\<bar>dval (dsub x (dmul x lit_0_1)) - (A - p)\<bar> \<le> \<bar>A - p\<bar> / 2 ^ 53"
    using dsub_err [of x "dmul x lit_0_1"] by (simp only: p_def x)
  have hi: "\<bar>dval (dadd x (dmul x lit_0_1)) - (A + p)\<bar> \<le> \<bar>A + p\<bar> / 2 ^ 53"
    using dadd_err [of x "dmul x lit_0_1"] by (simp only: p_def x)
  show "\<bar>dval (band_lo a) - 9 * real_of_int a / 10\<bar> < 1 / 10"
    unfolding band_lo_def x_def [symmetric] A_def [symmetric]
    using lo p A by (simp add: abs_if split: if_splits)
  show "\<bar>dval (band_hi a) - 11 * real_of_int a / 10\<bar> < 1 / 10"
    unfolding band_hi_def x_def [symmetric] A_def [symmetric]
    using hi p A by (simp add: abs_if split: if_splits)
qed


lemma below_band_iff:
  assumes a: "0 \<le> a" "a < 2 ^ 31" and v: "\<bar>v\<bar> < 2 ^ 53"
  shows "dless (double_of_int v) (band_lo a) \<longleftrightarrow> 10 * v < 9 * a"
proof -
  have V: "dless (double_of_int v) (band_lo a) \<longleftrightarrow> real_of_int v < dval (band_lo a)"
    by (simp add: dless_iff dval_double_of_int [OF v])
  show ?thesis
  proof (cases "a mod 10 = 0")
    case True
    then obtain n where n: "a = 10 * n" by auto
    with a have "0 \<le> n" "n < 2 ^ 40" by simp_all
    from band_tens(1) [OF this] have "dval (band_lo a) = real_of_int (9 * n)"
      by (simp add: n)
    then have "real_of_int v < dval (band_lo a) \<longleftrightarrow> v < 9 * n"
      by (simp only: of_int_less_iff)
    then show ?thesis
      unfolding V by (simp add: n)
  next
    case False
    then have ne: "10 * v \<noteq> 9 * a" by presburger
    have "real_of_int v < dval (band_lo a) \<longleftrightarrow> real_of_int (10 * v) < real_of_int (9 * a)"
    proof
      assume "real_of_int v < dval (band_lo a)"
      with band_near(1) [OF a] have "real_of_int (10 * v) < real_of_int (9 * a + 1)"
        by (simp add: abs_if split: if_splits)
      then have "10 * v < 9 * a + 1"
        by (simp only: of_int_less_iff)
      with ne have "10 * v < 9 * a" by simp
      then show "real_of_int (10 * v) < real_of_int (9 * a)"
        by (simp only: of_int_less_iff)
    next
      assume "real_of_int (10 * v) < real_of_int (9 * a)"
      then have "10 * v < 9 * a"
        by (simp only: of_int_less_iff)
      then have "10 * v \<le> 9 * a - 1" by simp
      then have "real_of_int (10 * v) \<le> real_of_int (9 * a - 1)"
        by (simp only: of_int_le_iff)
      with band_near(1) [OF a] show "real_of_int v < dval (band_lo a)"
        by (simp add: abs_if split: if_splits)
    qed
    then show ?thesis
      unfolding V by (simp only: of_int_less_iff)
  qed
qed

lemma above_band_iff:
  assumes a: "0 \<le> a" "a < 2 ^ 31" and v: "\<bar>v\<bar> < 2 ^ 53"
  shows "dless (band_hi a) (double_of_int v) \<longleftrightarrow> 11 * a < 10 * v"
proof -
  have V: "dless (band_hi a) (double_of_int v) \<longleftrightarrow> dval (band_hi a) < real_of_int v"
    by (simp add: dless_iff dval_double_of_int [OF v])
  show ?thesis
  proof (cases "a mod 10 = 0")
    case True
    then obtain n where n: "a = 10 * n" by auto
    with a have "0 \<le> n" "n < 2 ^ 40" by simp_all
    from band_tens(2) [OF this] have "dval (band_hi a) = real_of_int (11 * n)"
      by (simp add: n)
    then have "dval (band_hi a) < real_of_int v \<longleftrightarrow> 11 * n < v"
      by (simp only: of_int_less_iff)
    then show ?thesis
      unfolding V by (simp add: n)
  next
    case False
    then have ne: "10 * v \<noteq> 11 * a" by presburger
    have "dval (band_hi a) < real_of_int v \<longleftrightarrow> real_of_int (11 * a) < real_of_int (10 * v)"
    proof
      assume "dval (band_hi a) < real_of_int v"
      with band_near(2) [OF a] have "real_of_int (11 * a - 1) < real_of_int (10 * v)"
        by (simp add: abs_if split: if_splits)
      then have "11 * a - 1 < 10 * v"
        by (simp only: of_int_less_iff)
      with ne have "11 * a < 10 * v" by simp
      then show "real_of_int (11 * a) < real_of_int (10 * v)"
        by (simp only: of_int_less_iff)
    next
      assume "real_of_int (11 * a) < real_of_int (10 * v)"
      then have "11 * a < 10 * v"
        by (simp only: of_int_less_iff)
      then have "11 * a + 1 \<le> 10 * v" by simp
      then have "real_of_int (11 * a + 1) \<le> real_of_int (10 * v)"
        by (simp only: of_int_le_iff)
      with band_near(2) [OF a] show "dval (band_hi a) < real_of_int v"
        by (simp add: abs_if split: if_splits)
    qed
    then show ?thesis
      unfolding V by (simp only: of_int_less_iff)
  qed
qed

lemma outside_band_iff:
  assumes "0 \<le> a" "a < 2 ^ 31" "\<bar>v\<bar> < 2 ^ 53"
  shows "outside_band a v \<longleftrightarrow> 10 * v < 9 * a \<or> 11 * a < 10 * v"
  unfolding outside_band_def by (simp only: below_band_iff [OF assms] above_band_iff [OF assms])

subsection \<open>The loops of thread B in closed form\<close>

text \<open>
  On an array of \<open>dados_size\<close> entries each averaging loop visits every entry once, so
  it computes the sum and the number of the entries that pass its test.
\<close>

lemma fold_index: "fold (\<lambda>i. g (xs ! i)) [0 ..< length xs] = fold g xs"
proof -
  have "fold g xs = fold g (map ((!) xs) [0 ..< length xs])"
    by (simp add: map_nth)
  also have "\<dots> = fold (g \<circ> (!) xs) [0 ..< length xs]"
    by (rule fold_map)
  finally show ?thesis
    by (simp add: comp_def)
qed

lemma fold_pick:
  "fold (\<lambda>d (s, c). if P d then (s + d, c + 1) else (s, c)) xs (s0 :: int, c0 :: int) =
     (s0 + sum_list (filter P xs), c0 + int (length (filter P xs)))"
  by (induction xs arbitrary: s0 c0) simp_all

lemma pass1_loop_eq:
  assumes "length w = dados_size"
  shows "pass1_loop w = (sum_list (filter (\<lambda>d. d \<noteq> 0) w), int (length (filter (\<lambda>d. d \<noteq> 0) w)))"
proof -
  have "pass1_loop w =
      fold (\<lambda>i. (\<lambda>d (s, c). if d \<noteq> 0 then (s + d, c + 1) else (s, c)) (w ! i)) [0 ..< length w] (0, 0)"
    by (simp add: pass1_loop_def assms)
  also have "\<dots> = fold (\<lambda>d (s, c). if d \<noteq> 0 then (s + d, c + 1) else (s, c)) w (0, 0)"
    by (rule fold_index [THEN fun_cong])
  finally show ?thesis
    by (simp only: fold_pick) simp
qed

lemma pass2_loop_eq:
  assumes "length w = dados_size"
  shows "pass2_loop a w = (sum_list (filter (\<lambda>d. \<not> outside_band a d) w),
     int (length (filter (\<lambda>d. \<not> outside_band a d) w)))"
proof -
  have "pass2_loop a w =
      fold (\<lambda>i. (\<lambda>d (s, c). if \<not> outside_band a d then (s + d, c + 1) else (s, c)) (w ! i))
        [0 ..< length w] (0, 0)"
    unfolding pass2_loop_def assms
    by (rule arg_cong [where f = "\<lambda>f. fold f [0 ..< dados_size] (0, 0)"]) (auto simp: fun_eq_iff)
  also have "\<dots> = fold (\<lambda>d (s, c). if \<not> outside_band a d then (s + d, c + 1) else (s, c)) w (0, 0)"
    by (rule fold_index [THEN fun_cong])
  finally show ?thesis
    by (simp only: fold_pick) simp
qed

lemma shift_indices: "rev [1 ..< dados_size] = [9, 8, 7, 6, 5, 4, 3, 2, 1]"
  by code_simp

lemma rotate_in_ten:
  "rotate_in v [d0, d1, d2, d3, d4, d5, d6, d7, d8, d9] = [d9, v, d1, d2, d3, d4, d5, d6, d7, d8]"
  by (simp add: rotate_in_def shift_loop_def shift_indices) (simp add: dados_size_def eval_nat_numeral)

lemma length_ten:
  assumes "length (w :: 'a list) = 10"
  obtains d0 d1 d2 d3 d4 d5 d6 d7 d8 d9 where "w = [d0, d1, d2, d3, d4, d5, d6, d7, d8, d9]"
proof -
  from assms have "w = map ((!) w) [0 ..< 10]"
    by (metis map_nth)
  also have "[0 ..< 10] = [0, 1, 2, 3, 4, 5, 6, 7, 8, 9 :: nat]"
    by code_simp
  finally have "w = [w ! 0, w ! 1, w ! 2, w ! 3, w ! 4, w ! 5, w ! 6, w ! 7, w ! 8, w ! 9]"
    by simp
  then show thesis by (rule that)
qed


lemma rotate_in_length: "length w = dados_size \<Longrightarrow> length (rotate_in v w) = dados_size"
  by (rule length_ten [of w]) (simp_all add: dados_size_def rotate_in_ten)

lemma rotate_in_recency:
  assumes "length w = dados_size"
  shows "tl (rotate_in v w) @ [hd (rotate_in v w)] = take dados_size (v # tl w @ [hd w])"
  by (rule length_ten [of w]) (use assms in \<open>simp_all add: dados_size_def rotate_in_ten\<close>)

lemma take_append_take: "take n (xs @ take n ys) = take n (xs @ ys)"
  by simp

lemma fold_rotate_in:
  assumes "length w = dados_size"
  shows "length (fold rotate_in ss w) = dados_size \<and>
    tl (fold rotate_in ss w) @ [hd (fold rotate_in ss w)] = take dados_size (rev ss @ tl w @ [hd w])"
  using assms
proof (induction ss arbitrary: w)
  case Nil
  then have "0 < length w" by (simp add: dados_size_def)
  then have "length (tl w @ [hd w]) = length w" by simp
  with Nil show ?case by simp
next
  case (Cons v ss)
  from Cons.IH [OF rotate_in_length [OF Cons.prems, of v]]
  have "length (fold rotate_in (v # ss) w) = dados_size"
    and "tl (fold rotate_in (v # ss) w) @ [hd (fold rotate_in (v # ss) w)] =
      take dados_size (rev ss @ take dados_size (v # tl w @ [hd w]))"
    by (simp_all add: rotate_in_recency [OF Cons.prems])
  then show ?case
    by (simp only: take_append_take) simp
qed

lemma window_after:
  assumes "length w = dados_size" "dados_size \<le> length ss"
  shows "fold rotate_in ss w = rev ss ! 9 # take 9 (rev ss)"
proof -
  define w' where "w' = fold rotate_in ss w"
  from fold_rotate_in [OF assms(1), of ss]
  have len: "length w' = 10" and r: "tl w' @ [hd w'] = take 10 (rev ss)"
    using assms(2) by (simp_all add: w'_def dados_size_def)
  from len obtain h t where w': "w' = h # t" and t: "length t = 9"
    by (cases w') simp_all
  from r have R: "take 10 (rev ss) = t @ [h]"
    by (simp add: w')
  have "take 9 (t @ [h]) = t" "(t @ [h]) ! 9 = h"
    using t by (simp_all add: nth_append)
  then have "take 9 (rev ss) = t" "rev ss ! 9 = h"
    unfolding R [symmetric] by simp_all
  then show ?thesis
    by (simp add: w'_def [symmetric] w')
qed

lemma sum_list_bounds:
  assumes "\<forall>v\<in>set xs. 0 \<le> v \<and> v \<le> (M :: int)"
  shows "0 \<le> sum_list xs \<and> sum_list xs \<le> M * int (length xs)"
  using assms by (induction xs) (auto simp: algebra_simps)

text \<open>
  After any number of rounds of either loop on an array of raw samples, the sum is between
  0 and 10230 and the count between 0 and 10: no value stored in \<open>sum1\<close>, \<open>cnt1\<close>,
  \<open>sum2\<close> or \<open>cnt2\<close> leaves the range of a 32-bit \<open>int\<close>. The first loop is the
  instance \<open>P d = (d \<noteq> 0)\<close>, the second one \<open>P d = (\<not> outside_band Avg d)\<close>.
\<close>

lemma fold_index_prefix:
  assumes "n \<le> length xs"
  shows "fold (\<lambda>i. g (xs ! i)) [0 ..< n] a = fold g (take n xs) a"
proof -
  have "fold (\<lambda>i. g (xs ! i)) [0 ..< n] a = fold (\<lambda>i. g (take n xs ! i)) [0 ..< n] a"
    by (rule fold_cong) simp_all
  also have "\<dots> = fold (\<lambda>i. g (take n xs ! i)) [0 ..< length (take n xs)] a"
    using assms by simp
  also have "\<dots> = fold g (take n xs) a"
    by (rule fold_index [THEN fun_cong])
  finally show ?thesis .
qed

lemma partial_sums_in_range:
  assumes "length w = dados_size" "\<forall>v\<in>set w. 0 \<le> v \<and> v \<le> (1023 :: int)" "n \<le> dados_size"
    and "fold (\<lambda>i (s, c). if P (w ! i) then (s + w ! i, c + 1) else (s, c)) [0 ..< n] (0, 0)
      = (s', c' :: int)"
  shows "0 \<le> s' \<and> s' \<le> 10230 \<and> 0 \<le> c' \<and> c' \<le> 10 \<and> (10230 :: int) < 2 ^ 31"
proof -
  define ys where "ys = filter P (take n w)"
  have n: "n \<le> length w" using assms(1,3) by simp
  have "fold (\<lambda>i. (\<lambda>d (s, c). if P d then (s + d, c + 1) else (s, c)) (w ! i)) [0 ..< n] (0, 0)
      = fold (\<lambda>d (s, c). if P d then (s + d, c + 1) else (s, c)) (take n w) (0, 0)"
    by (rule fold_index_prefix [OF n])
  also have "\<dots> = (sum_list ys, int (length ys))"
    unfolding ys_def fold_pick by simp
  finally have "(s', c') = (sum_list ys, int (length ys))"
    unfolding assms(4) [symmetric] by simp
  then have sc: "s' = sum_list ys" "c' = int (length ys)"
    by simp_all
  have "set ys \<subseteq> set w"
    unfolding ys_def using set_take_subset [of n w] by auto
  then have "\<forall>v\<in>set ys. 0 \<le> v \<and> v \<le> 1023"
    using assms(2) by auto
  from sum_list_bounds [OF this] have s: "0 \<le> sum_list ys" "sum_list ys \<le> 1023 * int (length ys)"
    by simp_all
  have "length ys \<le> length (take n w)"
    unfolding ys_def by (rule length_filter_le)
  then have len: "length ys \<le> 10"
    using assms(1,3) by (simp add: dados_size_def)
  then have "1023 * int (length ys) \<le> 10230" by simp
  with s len show ?thesis
    by (simp add: sc)
qed

subsection \<open>The averages\<close>

text \<open>
  The quotient of C is the real quotient rounded towards zero, and the average of values
  from a range lies in that range. On raw samples the trimming test in binary64 agrees
  with the comparison of the exact products.
\<close>

lemma c_div_nonneg: "0 \<le> a \<Longrightarrow> 0 < b \<Longrightarrow> c_div a b = a div b"
  by (simp add: c_div_def)

lemma c_div_trunc:
  assumes "0 < b"
  shows "c_div a b = (if 0 \<le> real_of_int a / real_of_int b
    then \<lfloor>real_of_int a / real_of_int b\<rfloor> else \<lceil>real_of_int a / real_of_int b\<rceil>)"
proof (cases "0 \<le> a")
  case True
  with assms have "0 \<le> real_of_int a / real_of_int b" by simp
  with True assms show ?thesis
    by (simp add: c_div_nonneg floor_divide_of_int_eq)
next
  case False
  with assms have neg: "\<not> 0 \<le> real_of_int a / real_of_int b"
    by (simp add: divide_less_0_iff not_le)
  have "\<lceil>real_of_int a / real_of_int b\<rceil> = - \<lfloor>real_of_int (- a) / real_of_int b\<rfloor>"
    by (simp add: ceiling_def)
  also have "\<dots> = - ((- a) div b)"
    by (simp only: floor_divide_of_int_eq)
  finally show ?thesis
    using False assms neg by (simp add: c_div_def)
qed

lemma avg_of_trunc:
  "avg_of (sum_list xs, int (length xs)) =
     (if xs = [] then 0
      else if 0 \<le> real_of_int (sum_list xs) / real (length xs)
      then \<lfloor>real_of_int (sum_list xs) / real (length xs)\<rfloor>
      else \<lceil>real_of_int (sum_list xs) / real (length xs)\<rceil>)"
proof (cases "xs = []")
  case True
  then show ?thesis by (simp add: avg_of_def)
next
  case False
  then have "0 < int (length xs)" by simp
  from c_div_trunc [OF this, of "sum_list xs"] False show ?thesis
    by (simp add: avg_of_def)
qed

lemma avg_of_bounds:
  assumes "\<forall>v\<in>set xs. 0 \<le> v \<and> v \<le> M" "0 \<le> M"
  shows "0 \<le> avg_of (sum_list xs, int (length xs)) \<and> avg_of (sum_list xs, int (length xs)) \<le> M"
proof (cases "xs = []")
  case True
  with assms(2) show ?thesis by (simp add: avg_of_def)
next
  case False
  then have n: "0 < int (length xs)" by simp
  from sum_list_bounds [OF assms(1)]
  have s: "0 \<le> sum_list xs" "sum_list xs \<le> M * int (length xs)" by simp_all
  have "sum_list xs div int (length xs) \<le> (M * int (length xs)) div int (length xs)"
    using s(2) n by (rule zdiv_mono1)
  also have "\<dots> = M"
    using n by simp
  finally have "sum_list xs div int (length xs) \<le> M" .
  moreover have "0 \<le> sum_list xs div int (length xs)"
    using s(1) n by (simp add: pos_imp_zdiv_nonneg_iff)
  ultimately show ?thesis
    using False s(1) n by (simp add: avg_of_def c_div_nonneg)
qed

lemma pass1_eq:
  assumes "length w = dados_size"
  shows "pass1 w = avg_of (sum_list (filter (\<lambda>d. d \<noteq> 0) w), int (length (filter (\<lambda>d. d \<noteq> 0) w)))"
  by (simp add: pass1_def pass1_loop_eq [OF assms])

lemma pass2_eq:
  assumes "length w = dados_size"
  shows "pass2 a w = avg_of (sum_list (filter (\<lambda>d. \<not> outside_band a d) w),
    int (length (filter (\<lambda>d. \<not> outside_band a d) w)))"
  by (simp add: pass2_def pass2_loop_eq [OF assms])

lemma pass1_bounds:
  assumes "length w = dados_size" "\<forall>v\<in>set w. 0 \<le> v \<and> v \<le> 1023"
  shows "0 \<le> pass1 w \<and> pass1 w \<le> 1023"
  unfolding pass1_eq [OF assms(1)] using assms(2) by (intro avg_of_bounds) simp_all

lemma pass2_bounds:
  assumes "length w = dados_size" "\<forall>v\<in>set w. 0 \<le> v \<and> v \<le> 1023"
  shows "0 \<le> pass2 a w \<and> pass2 a w \<le> 1023"
  unfolding pass2_eq [OF assms(1)] using assms(2) by (intro avg_of_bounds) simp_all

lemma kept_eq:
  assumes "0 \<le> a" "a \<le> 1023" "\<forall>v\<in>set w. 0 \<le> v \<and> v \<le> 1023"
  shows "filter (\<lambda>d. \<not> outside_band a d) w =
    filter (\<lambda>v. \<not> (real_of_int v < 0.9 * real_of_int a \<or> real_of_int v > 1.1 * real_of_int a)) w"
proof (rule filter_cong [OF refl])
  fix v assume "v \<in> set w"
  with assms(3) have v: "\<bar>v\<bar> < 2 ^ 53" by auto
  have a: "0 \<le> a" "a < 2 ^ 31" using assms by simp_all
  have "real_of_int v < 0.9 * real_of_int a \<longleftrightarrow> real_of_int (10 * v) < real_of_int (9 * a)"
    by (simp add: mult.commute)
  also have "\<dots> \<longleftrightarrow> 10 * v < 9 * a"
    by (simp only: of_int_less_iff)
  finally have lo: "real_of_int v < 0.9 * real_of_int a \<longleftrightarrow> 10 * v < 9 * a" .
  have "real_of_int v > 1.1 * real_of_int a \<longleftrightarrow> real_of_int (11 * a) < real_of_int (10 * v)"
    by (simp add: mult.commute)
  also have "\<dots> \<longleftrightarrow> 11 * a < 10 * v"
    by (simp only: of_int_less_iff)
  finally have hi: "real_of_int v > 1.1 * real_of_int a \<longleftrightarrow> 11 * a < 10 * v" .
  show "(\<not> outside_band a v) =
    (\<not> (real_of_int v < 0.9 * real_of_int a \<or> real_of_int v > 1.1 * real_of_int a))"
    by (simp only: outside_band_iff [OF a v] lo hi)
qed


lemma kept_int:
  assumes "0 \<le> a" "a \<le> 1023" "\<forall>v\<in>set w. 0 \<le> v \<and> v \<le> 1023"
  shows "filter (\<lambda>d. \<not> outside_band a d) w = filter (\<lambda>v. 9 * a \<le> 10 * v \<and> 10 * v \<le> 11 * a) w"
proof (rule filter_cong [OF refl])
  fix v assume "v \<in> set w"
  with assms(3) have v: "\<bar>v\<bar> < 2 ^ 53" by auto
  have a: "0 \<le> a" "a < 2 ^ 31" using assms by simp_all
  show "(\<not> outside_band a v) = (9 * a \<le> 10 * v \<and> 10 * v \<le> 11 * a)"
    unfolding outside_band_iff [OF a v] by auto
qed

lemma filter_value_int:
  assumes "length w = dados_size" "\<forall>v\<in>set w. 0 \<le> v \<and> v \<le> 1023"
  shows "filter_value w =
    avg_of (sum_list (filter (\<lambda>v. 9 * pass1 w \<le> 10 * v \<and> 10 * v \<le> 11 * pass1 w) w),
      int (length (filter (\<lambda>v. 9 * pass1 w \<le> 10 * v \<and> 10 * v \<le> 11 * pass1 w) w)))"
proof -
  from pass1_bounds [OF assms] have "0 \<le> pass1 w" "pass1 w \<le> 1023" by simp_all
  from kept_int [OF this assms(2)] show ?thesis
    by (simp add: filter_value_def pass2_eq [OF assms(1)])
qed

section \<open>The claims\<close>

text \<open>
  C1, as stated: after at least ten consumes the window holds the last ten samples in
  recency order, the newest at the front. This fails: the newest sample is written to
  index 0 before the rotation, which moves it to index 1 and brings the value of index 9
  to index 0. After the samples 1 to 10 the window is \<open>[1, 10, 9, \<dots>, 2]\<close>.
\<close>

theorem window_recency_order_counterexample:
  "fold rotate_in [1, 2, 3, 4, 5, 6, 7, 8, 9, 10] dados_init = [1, 10, 9, 8, 7, 6, 5, 4, 3, 2]
   \<and> fold rotate_in [1, 2, 3, 4, 5, 6, 7, 8, 9, 10] dados_init \<noteq> rev [1, 2, 3, 4, 5, 6, 7, 8, 9, 10]
   \<and> hd (rotate_in 500 dados_init) \<noteq> 500"
  by (simp add: dados_init_def dados_size_def eval_nat_numeral rotate_in_ten)

text \<open>
  C1, amended: one consume of the value \<open>v\<close> turns the window \<open>w\<close> into
  \<open>last w # v # butlast (tl w)\<close>: the entry at index 0 is discarded, the new sample is
  at index 1. After any sequence \<open>ss\<close> of at least ten consumed samples, from any window,
  index 0 holds the tenth most recent sample, the indices 1 to 9 hold the nine most recent
  ones, newest first, and as a multiset the window is the last ten samples.
\<close>

theorem window_last_samples:
  assumes "length w = dados_size" "dados_size \<le> length ss"
  shows "rotate_in v w = last w # v # butlast (tl w)
    \<and> fold rotate_in ss w = rev ss ! 9 # take 9 (rev ss)
    \<and> mset (fold rotate_in ss w) = mset (take dados_size (rev ss))"
proof -
  have one: "rotate_in v w = last w # v # butlast (tl w)"
    by (rule length_ten [of w]) (use assms(1) in \<open>simp_all add: dados_size_def rotate_in_ten\<close>)
  have all: "fold rotate_in ss w = rev ss ! 9 # take 9 (rev ss)"
    by (rule window_after [OF assms])
  have "take 10 (rev ss) = take 9 (rev ss) @ [rev ss ! 9]"
    using assms(2) by (simp add: dados_size_def take_Suc_conv_app_nth [of 9, simplified])
  then have "mset (take dados_size (rev ss)) = mset (rev ss ! 9 # take 9 (rev ss))"
    by (simp add: dados_size_def)
  with one all show ?thesis by simp
qed

theorem window_last_samples_witness:
  "length dados_init = dados_size
   \<and> dados_size \<le> length [1, 2, 3, 4, 5, 6, 7, 8, 9, 10, 11, 12 :: int]
   \<and> rotate_in 7 dados_init = last dados_init # 7 # butlast (tl dados_init)
   \<and> fold rotate_in [1, 2, 3, 4, 5, 6, 7, 8, 9, 10, 11, 12] dados_init = [3, 12, 11, 10, 9, 8, 7, 6, 5, 4]"
proof -
  have h1: "length dados_init = dados_size"
    by (simp add: dados_init_def)
  have h2: "dados_size \<le> length [1, 2, 3, 4, 5, 6, 7, 8, 9, 10, 11, 12 :: int]"
    by (simp add: dados_size_def)
  from window_last_samples [OF h1 h2, of 7] show ?thesis
    using h1 h2 by (simp add: eval_nat_numeral)
qed

text \<open>
  C2: for a window of raw samples, the second average keeps exactly the entries \<open>v\<close>
  that are neither below \<open>0.9 * avg1\<close> nor above \<open>1.1 * avg1\<close>, where \<open>avg1\<close> is the
  first average, fixed during the second loop; it is the sum of the kept entries divided
  by their number, truncated towards zero, and 0 when no entry is kept. When \<open>avg1 = 0\<close>
  the kept entries are the zero entries.
\<close>

theorem pass2_trimmed_mean:
  assumes "length w = dados_size" "\<forall>v\<in>set w. 0 \<le> v \<and> v \<le> 1023"
  shows "let avg1 = pass1 w;
             kept = filter (\<lambda>v. \<not> (real_of_int v < 0.9 * real_of_int avg1
                                   \<or> real_of_int v > 1.1 * real_of_int avg1)) w;
             mean = real_of_int (sum_list kept) / real (length kept)
         in pass2 avg1 w = (if kept = [] then 0 else if 0 \<le> mean then \<lfloor>mean\<rfloor> else \<lceil>mean\<rceil>)
            \<and> filter_value w = pass2 avg1 w
            \<and> (avg1 = 0 \<longrightarrow> kept = filter (\<lambda>v. v = 0) w)"
proof -
  define avg1 where "avg1 = pass1 w"
  define kept where "kept = filter (\<lambda>v. \<not> (real_of_int v < 0.9 * real_of_int avg1
    \<or> real_of_int v > 1.1 * real_of_int avg1)) w"
  from pass1_bounds [OF assms] have a: "0 \<le> avg1" "avg1 \<le> 1023"
    by (simp_all add: avg1_def)
  have "pass2 avg1 w = avg_of (sum_list kept, int (length kept))"
    unfolding kept_def kept_eq [OF a assms(2), symmetric] by (rule pass2_eq [OF assms(1)])
  then have mean: "pass2 avg1 w =
     (if kept = [] then 0
      else if 0 \<le> real_of_int (sum_list kept) / real (length kept)
      then \<lfloor>real_of_int (sum_list kept) / real (length kept)\<rfloor>
      else \<lceil>real_of_int (sum_list kept) / real (length kept)\<rceil>)"
    by (simp only: avg_of_trunc)
  have zero: "avg1 = 0 \<longrightarrow> kept = filter (\<lambda>v. v = 0) w"
  proof
    assume "avg1 = 0"
    then have "kept = filter (\<lambda>v. \<not> (real_of_int v < 0 \<or> real_of_int v > 0)) w"
      by (simp add: kept_def)
    also have "\<dots> = filter (\<lambda>v. v = 0) w"
      by (rule filter_cong [OF refl]) auto
    finally show "kept = filter (\<lambda>v. v = 0) w" .
  qed
  have "filter_value w = pass2 avg1 w"
    by (simp add: filter_value_def avg1_def)
  with mean zero show ?thesis
    unfolding Let_def avg1_def [symmetric] kept_def [symmetric] by simp
qed


theorem pass2_trimmed_mean_witness:
  "length [100, 102, 98, 101, 99, 120, 97, 103, 0, 98 :: int] = dados_size
   \<and> set [100, 102, 98, 101, 99, 120, 97, 103, 0, 98 :: int] \<subseteq> {0 .. 1023}
   \<and> pass1 [100, 102, 98, 101, 99, 120, 97, 103, 0, 98] = 102
   \<and> filter_value [100, 102, 98, 101, 99, 120, 97, 103, 0, 98] = 99
   \<and> length [0, 0, 0, 0, 0, 0, 0, 0, 0, 0 :: int] = dados_size
   \<and> set [0, 0, 0, 0, 0, 0, 0, 0, 0, 0 :: int] \<subseteq> {0 .. 1023}
   \<and> pass1 [0, 0, 0, 0, 0, 0, 0, 0, 0, 0] = 0
   \<and> filter_value [0, 0, 0, 0, 0, 0, 0, 0, 0, 0] = 0"
proof -
  have h1: "length [100, 102, 98, 101, 99, 120, 97, 103, 0, 98 :: int] = dados_size"
    by (simp add: dados_size_def)
  have h2: "\<forall>v\<in>set [100, 102, 98, 101, 99, 120, 97, 103, 0, 98 :: int]. 0 \<le> v \<and> v \<le> 1023"
    by simp
  have h3: "length [0, 0, 0, 0, 0, 0, 0, 0, 0, 0 :: int] = dados_size"
    by (simp add: dados_size_def)
  have h4: "\<forall>v\<in>set [0, 0, 0, 0, 0, 0, 0, 0, 0, 0 :: int]. 0 \<le> v \<and> v \<le> 1023"
    by simp
  have p1: "pass1 [100, 102, 98, 101, 99, 120, 97, 103, 0, 98] = 102"
    unfolding pass1_eq [OF h1] by (simp add: avg_of_def c_div_def)
  have p2: "pass1 [0, 0, 0, 0, 0, 0, 0, 0, 0, 0] = 0"
    unfolding pass1_eq [OF h3] by (simp add: avg_of_def)
  have "filter_value [100, 102, 98, 101, 99, 120, 97, 103, 0, 98] = 99"
    using pass2_trimmed_mean [OF h1 h2, unfolded Let_def p1] by simp
  moreover have "filter_value [0, 0, 0, 0, 0, 0, 0, 0, 0, 0] = 0"
    using pass2_trimmed_mean [OF h3 h4, unfolded Let_def p2] by simp
  ultimately show ?thesis
    using h1 h2 h3 h4 p1 p2 by simp
qed

text \<open>
  C3: for a window of raw samples, the first average is the mean of the non-zero entries
  of the window, truncated towards zero, and 0 when every entry is zero.
\<close>

theorem pass1_mean:
  assumes "length w = dados_size" "\<forall>v\<in>set w. 0 \<le> v \<and> v \<le> 1023"
  shows "let nz = filter (\<lambda>v. v \<noteq> 0) w;
             mean = real_of_int (sum_list nz) / real (length nz)
         in pass1 w = (if nz = [] then 0 else if 0 \<le> mean then \<lfloor>mean\<rfloor> else \<lceil>mean\<rceil>)
            \<and> ((\<forall>v\<in>set w. v = 0) \<longrightarrow> pass1 w = 0)"
proof -
  define nz where "nz = filter (\<lambda>v. v \<noteq> 0) w"
  have p: "pass1 w = avg_of (sum_list nz, int (length nz))"
    unfolding nz_def by (rule pass1_eq [OF assms(1)])
  have "(\<forall>v\<in>set w. v = 0) \<longrightarrow> nz = []"
    by (auto simp: nz_def filter_empty_conv)
  then have "(\<forall>v\<in>set w. v = 0) \<longrightarrow> pass1 w = 0"
    by (auto simp: p avg_of_def)
  then show ?thesis
    unfolding Let_def nz_def [symmetric] p avg_of_trunc by simp
qed

theorem pass1_mean_witness:
  "length [100, 102, 98, 101, 99, 400, 97, 103, 0, 98 :: int] = dados_size
   \<and> set [100, 102, 98, 101, 99, 400, 97, 103, 0, 98 :: int] \<subseteq> {0 .. 1023}
   \<and> pass1 [100, 102, 98, 101, 99, 400, 97, 103, 0, 98] = 133
   \<and> length dados_init = dados_size \<and> set dados_init \<subseteq> {0} \<and> pass1 dados_init = 0"
proof -
  have h1: "length [100, 102, 98, 101, 99, 400, 97, 103, 0, 98 :: int] = dados_size"
    by (simp add: dados_size_def)
  have r1: "\<forall>v\<in>set [100, 102, 98, 101, 99, 400, 97, 103, 0, 98 :: int]. 0 \<le> v \<and> v \<le> 1023"
    by simp
  have h2: "length dados_init = dados_size"
    by (simp add: dados_init_def)
  have h3: "\<forall>v\<in>set dados_init. v = 0"
    by (simp add: dados_init_def)
  have r2: "\<forall>v\<in>set dados_init. 0 \<le> v \<and> v \<le> 1023"
    by (simp add: dados_init_def)
  from pass1_mean [OF h1 r1] pass1_mean [OF h2 r2] h3 show ?thesis
    using h1 h2 by (auto simp: Let_def)
qed

text \<open>
  C4, as stated: in a cycle whose read fails or is out of range the sampler skips publishing
  and signalling. This fails for the signal: \<open>k_sem_give(&sem_ab)\<close> follows the
  conditional and runs in every cycle. With the failing read \<open>err = -5\<close> the count of
  \<open>sem_ab\<close> goes from 0 to 1.
\<close>

theorem sample_signal_counterexample:
  "sem_ab chan_ab_init = 0
   \<and> sem_ab (thread_A_sample (- 5) 0 chan_ab_init) = 1
   \<and> thread_A_sample (- 5) 0 chan_ab_init \<noteq> chan_ab_init"
  by (simp add: thread_A_sample_def chan_ab_init_def k_sem_give_def sem_limit_def)

text \<open>
  C4, amended: when the read fails or the reading exceeds 1023, \<open>ab\<close> keeps its
  previous value; \<open>ab\<close> is written only for a successful reading of at most 1023, and
  then holds that reading; the semaphore \<open>sem_ab\<close> is given in every cycle, whatever
  the reading was.
\<close>

theorem sample_publish:
  "(err \<noteq> 0 \<or> buf > 1023 \<longrightarrow> ab (thread_A_sample err buf s) = ab s)
   \<and> (err = 0 \<and> buf \<le> 1023 \<longrightarrow>
        ab (thread_A_sample err buf s) = uint buf \<and> 0 \<le> uint buf \<and> uint buf \<le> 1023)
   \<and> (ab (thread_A_sample err buf s) \<noteq> ab s \<longrightarrow> err = 0 \<and> buf \<le> 1023)
   \<and> sem_ab (thread_A_sample err buf s) = k_sem_give (sem_ab s)"
proof -
  have "buf \<le> 1023 \<Longrightarrow> uint buf \<le> 1023"
    by (simp add: word_le_def)
  then show ?thesis
    by (auto simp: thread_A_sample_def Let_def not_less)
qed

theorem sample_publish_witness:
  "(- 5 :: int) \<noteq> 0
   \<and> ab (thread_A_sample (- 5) 700 \<lparr>ab = 300, sem_ab = 0\<rparr>) = 300
   \<and> (2000 :: 16 word) > 1023
   \<and> ab (thread_A_sample 0 2000 \<lparr>ab = 300, sem_ab = 0\<rparr>) = 300
   \<and> (0 :: int) = 0 \<and> (700 :: 16 word) \<le> 1023
   \<and> ab (thread_A_sample 0 700 \<lparr>ab = 300, sem_ab = 0\<rparr>) = 700
   \<and> ab (thread_A_sample 0 700 \<lparr>ab = 300, sem_ab = 0\<rparr>) \<noteq> ab \<lparr>ab = 300, sem_ab = 0\<rparr>
   \<and> sem_ab (thread_A_sample (- 5) 700 \<lparr>ab = 300, sem_ab = 0\<rparr>) = 1"
  using sample_publish [of "- 5" 700 "\<lparr>ab = 300, sem_ab = 0\<rparr>"]
    sample_publish [of 0 2000 "\<lparr>ab = 300, sem_ab = 0\<rparr>"]
    sample_publish [of 0 700 "\<lparr>ab = 300, sem_ab = 0\<rparr>"]
  by (simp add: k_sem_give_def sem_limit_def)

text \<open>
  C5: for a filtered value \<open>b\<close> between 0 and 1023 the pulse width is the floor of
  \<open>pwmPeriod_us * b / 1023\<close>; it does not decrease when \<open>b\<close> grows; and it is the
  whole period at \<open>b = 1023\<close>.
\<close>

theorem pulse_width_scaling:
  assumes "0 \<le> b" "b \<le> b'" "b' \<le> 1023"
  shows "uint (pulse_width b) = \<lfloor>real_of_int (uint pwmPeriod_us) * real_of_int b / 1023\<rfloor>
    \<and> pulse_width b \<le> pulse_width b'
    \<and> pulse_width 1023 = pwmPeriod_us"
proof -
  have b: "0 \<le> b" "b \<le> 1023" and b': "0 \<le> b'" "b' \<le> 1023"
    using assms by simp_all
  have "\<lfloor>real_of_int (1000 * b) / real_of_int 1023\<rfloor> = (1000 * b) div 1023"
    by (rule floor_divide_of_int_eq)
  then have "uint (pulse_width b) = \<lfloor>real_of_int (uint pwmPeriod_us) * real_of_int b / 1023\<rfloor>"
    by (simp add: pulse_width_uint [OF b] pwmPeriod_us_def)
  moreover have "(1000 * b) div 1023 \<le> (1000 * b') div 1023"
    using assms by (intro zdiv_mono1) simp_all
  then have "pulse_width b \<le> pulse_width b'"
    by (simp add: word_le_def pulse_width_uint [OF b] pulse_width_uint [OF b'])
  moreover have "pulse_width 1023 = pwmPeriod_us"
    by (simp add: pulse_width_def pwmPeriod_us_def)
  ultimately show ?thesis by simp
qed

theorem pulse_width_scaling_witness:
  "(0 :: int) \<le> 500 \<and> (500 :: int) \<le> 1023 \<and> (1023 :: int) \<le> 1023
   \<and> uint (pulse_width 500) = 488 \<and> pulse_width 500 \<le> pulse_width 1023
   \<and> pulse_width 1023 = 1000"
proof -
  have h: "(0 :: int) \<le> 500" "(500 :: int) \<le> 1023" "(1023 :: int) \<le> 1023"
    by simp_all
  from pulse_width_scaling [OF h] show ?thesis
    by (auto simp: pwmPeriod_us_def)
qed

text \<open>
  C6: \<open>bc\<close> is 0 before the first iteration of thread B. For a window of raw samples the
  filtered value lies between 0 and 1023, and an iteration that reads a raw sample from
  \<open>ab\<close> leaves a window of raw samples and stores such a value in \<open>bc\<close>.
\<close>

theorem filtered_value_range:
  assumes "length (window s) = dados_size" "\<forall>v\<in>set (window s). 0 \<le> v \<and> v \<le> 1023"
    and "0 \<le> a" "a \<le> 1023"
  shows "bc chan_bc_init = 0
    \<and> 0 \<le> filter_value (window s) \<and> filter_value (window s) \<le> 1023
    \<and> 0 \<le> bc (thread_B_step a s) \<and> bc (thread_B_step a s) \<le> 1023
    \<and> length (window (thread_B_step a s)) = dados_size
    \<and> (\<forall>v\<in>set (window (thread_B_step a s)). 0 \<le> v \<and> v \<le> 1023)"
proof -
  define w' where "w' = rotate_in a (window s)"
  have len: "length w' = dados_size"
    unfolding w'_def by (rule rotate_in_length [OF assms(1)])
  have rng: "\<forall>v\<in>set w'. 0 \<le> v \<and> v \<le> 1023"
    unfolding w'_def
    by (rule length_ten [of "window s"])
      (use assms in \<open>auto simp: dados_size_def rotate_in_ten\<close>)
  have "0 \<le> filter_value (window s) \<and> filter_value (window s) \<le> 1023"
    unfolding filter_value_def by (rule pass2_bounds [OF assms(1,2)])
  moreover have "0 \<le> filter_value w' \<and> filter_value w' \<le> 1023"
    unfolding filter_value_def by (rule pass2_bounds [OF len rng])
  ultimately show ?thesis
    using len rng by (simp add: thread_B_step_def Let_def w'_def [symmetric] chan_bc_init_def)
qed

theorem filtered_value_range_witness:
  "length (window chan_bc_init) = dados_size
   \<and> set (window chan_bc_init) \<subseteq> {0 .. 1023}
   \<and> (0 :: int) \<le> 500 \<and> (500 :: int) \<le> 1023
   \<and> 0 \<le> bc (thread_B_step 500 chan_bc_init) \<and> bc (thread_B_step 500 chan_bc_init) \<le> 1023
   \<and> window (thread_B_step 500 chan_bc_init) = [0, 500, 0, 0, 0, 0, 0, 0, 0, 0]"
proof -
  have h1: "length (window chan_bc_init) = dados_size"
    by (simp add: chan_bc_init_def dados_init_def)
  have h2: "\<forall>v\<in>set (window chan_bc_init). 0 \<le> v \<and> v \<le> 1023"
    by (simp add: chan_bc_init_def dados_init_def)
  have h3: "(0 :: int) \<le> 500" "(500 :: int) \<le> 1023"
    by simp_all
  have "window (thread_B_step 500 chan_bc_init) = [0, 500, 0, 0, 0, 0, 0, 0, 0, 0]"
    by (simp add: thread_B_step_def Let_def chan_bc_init_def dados_init_def dados_size_def
        eval_nat_numeral rotate_in_ten)
  with filtered_value_range [OF h1 h2 h3] show ?thesis
    using h1 h2 by auto
qed

text \<open>
  C7: the next release instant is the previous one plus the period of 1000 ms in every
  cycle, also after an overrun. The code does so only in a cycle that ends before its
  release instant: \<open>release_time += SAMP_PERIOD_MS\<close> stands inside
  \<open>if (fin_time < release_time)\<close>, next to the sleep. A cycle that ends at 400 ms with
  the release instant 1000 ms sleeps 600 ms and moves the release instant to 2000 ms; a
  cycle that ends at 1500 ms leaves it at 1000 ms, and so does every later cycle, here
  those ending at 1501 ms and at 2600 ms, none of which sleeps.
\<close>

theorem release_overrun:
  "thread_A_wait 400 1000 = (Some 600, 1000 + SAMP_PERIOD_MS)
   \<and> thread_A_wait 1500 1000 = (None, 1000)
   \<and> snd (thread_A_wait 1500 1000) \<noteq> 1000 + SAMP_PERIOD_MS
   \<and> thread_A_wait 1501 (snd (thread_A_wait 1500 1000)) = (None, 1000)
   \<and> thread_A_wait 2600 (snd (thread_A_wait 1501 (snd (thread_A_wait 1500 1000)))) = (None, 1000)"
  by (simp add: thread_A_wait_def SAMP_PERIOD_MS_def word_sless_alt)

text \<open>
  C8: from the all-zero window, consuming the sample 500 gives the window with 500 at
  index 1, the first sum 500 over one non-zero entry, the first average 500, the band
  from 450 to 550, the second sum 500 over one entry, the second average and \<open>bc\<close> 500,
  and the pulse width \<open>\<lfloor>pwmPeriod_us * 500 / 1023\<rfloor> = 488\<close>.
\<close>

theorem scenario_500:
  "window chan_bc_init = [0, 0, 0, 0, 0, 0, 0, 0, 0, 0]
   \<and> window (thread_B_step 500 chan_bc_init) = [0, 500, 0, 0, 0, 0, 0, 0, 0, 0]
   \<and> pass1_loop [0, 500, 0, 0, 0, 0, 0, 0, 0, 0] = (500, 1)
   \<and> pass1 [0, 500, 0, 0, 0, 0, 0, 0, 0, 0] = 500
   \<and> dval (band_lo 500) = 450 \<and> dval (band_hi 500) = 550
   \<and> pass2_loop 500 [0, 500, 0, 0, 0, 0, 0, 0, 0, 0] = (500, 1)
   \<and> pass2 500 [0, 500, 0, 0, 0, 0, 0, 0, 0, 0] = 500
   \<and> bc (thread_B_step 500 chan_bc_init) = 500
   \<and> uint (pulse_width (bc (thread_B_step 500 chan_bc_init)))
       = \<lfloor>real_of_int (uint pwmPeriod_us) * 500 / 1023\<rfloor>
   \<and> pulse_width (bc (thread_B_step 500 chan_bc_init)) = 488"
proof -
  let ?w = "[0, 500, 0, 0, 0, 0, 0, 0, 0, 0 :: int]"
  have init: "window chan_bc_init = [0, 0, 0, 0, 0, 0, 0, 0, 0, 0]"
    by (simp add: chan_bc_init_def dados_init_def dados_size_def eval_nat_numeral)
  have len: "length ?w = dados_size"
    by (simp add: dados_size_def)
  have rng: "\<forall>v\<in>set ?w. 0 \<le> v \<and> v \<le> 1023"
    by simp
  have w: "rotate_in 500 (window chan_bc_init) = ?w"
    unfolding init by (rule rotate_in_ten)
  have l1: "pass1_loop ?w = (500, 1)"
    unfolding pass1_loop_eq [OF len] by simp
  then have a1: "pass1 ?w = 500"
    by (simp add: pass1_def avg_of_def c_div_def)
  have band: "dval (band_lo 500) = 450" "dval (band_hi 500) = 550"
    using band_tens [of 50] by simp_all
  have "filter (\<lambda>d. \<not> outside_band 500 d) ?w = filter (\<lambda>v. 9 * 500 \<le> 10 * v \<and> 10 * v \<le> 11 * 500) ?w"
    by (rule kept_int [OF _ _ rng]) simp_all
  then have l2: "pass2_loop 500 ?w = (500, 1)"
    unfolding pass2_loop_eq [OF len] by simp
  then have a2: "pass2 500 ?w = 500"
    by (simp add: pass2_def avg_of_def c_div_def)
  have bc: "bc (thread_B_step 500 chan_bc_init) = 500"
    by (simp add: thread_B_step_def Let_def w filter_value_def a1 a2)
  have win: "window (thread_B_step 500 chan_bc_init) = ?w"
    by (simp add: thread_B_step_def Let_def w)
  have pw: "pulse_width 500 = 488"
    by (simp add: pulse_width_def pwmPeriod_us_def)
  have fl: "\<lfloor>real_of_int (uint pwmPeriod_us) * 500 / 1023\<rfloor> = 488"
    by (simp add: pwmPeriod_us_def)
  show ?thesis
    unfolding bc pw fl by (simp add: init win l1 a1 band l2 a2)
qed

text \<open>
  C9: the filtered value of a window depends only on the multiset of its entries: a
  rearranged window gives the same first average and the same filtered value.
\<close>

theorem filter_value_permutation:
  assumes "length w = dados_size" "mset w' = mset w"
  shows "pass1 w' = pass1 w \<and> filter_value w' = filter_value w"
proof -
  have len: "length w' = dados_size"
    using mset_eq_length [OF assms(2)] assms(1) by simp
  have pick: "sum_list (filter P w') = sum_list (filter P w)
      \<and> length (filter P w') = length (filter P w)" for P :: "int \<Rightarrow> bool"
  proof -
    have "mset (filter P w') = mset (filter P w)"
      by (simp add: assms(2))
    then show ?thesis
      by (metis mset_eq_length sum_mset_sum_list)
  qed
  have p1: "pass1 w' = pass1 w"
    by (simp add: pass1_eq [OF len] pass1_eq [OF assms(1)] pick)
  have "pass2 a w' = pass2 a w" for a
    by (simp add: pass2_eq [OF len] pass2_eq [OF assms(1)] pick)
  with p1 show ?thesis
    by (simp add: filter_value_def)
qed

theorem filter_value_permutation_witness:
  "length [100, 102, 98, 101, 99, 120, 97, 103, 0, 98 :: int] = dados_size
   \<and> mset (rev [100, 102, 98, 101, 99, 120, 97, 103, 0, 98 :: int])
       = mset [100, 102, 98, 101, 99, 120, 97, 103, 0, 98]
   \<and> filter_value [98, 0, 103, 97, 120, 99, 101, 98, 102, 100]
       = filter_value [100, 102, 98, 101, 99, 120, 97, 103, 0, 98]"
proof -
  have h1: "length [100, 102, 98, 101, 99, 120, 97, 103, 0, 98 :: int] = dados_size"
    by (simp add: dados_size_def)
  have h2: "mset (rev [100, 102, 98, 101, 99, 120, 97, 103, 0, 98 :: int])
      = mset [100, 102, 98, 101, 99, 120, 97, 103, 0, 98]"
    by (rule mset_rev)
  from filter_value_permutation [OF h1 h2] show ?thesis
    using h1 h2 by simp
qed

text \<open>
  C10: for \<open>bc\<close> between 0 and 1023 the 32-bit product \<open>pwmPeriod_us * bc\<close> is the
  product of the integers, at most 1023000 and below \<open>2 ^ 32\<close>, so the pulse width is
  the floor of \<open>1000 * bc / 1023\<close>.
\<close>

theorem pulse_width_no_overflow:
  assumes "0 \<le> b" "b \<le> 1023"
  shows "uint (pwmPeriod_us * word_of_int b) = uint pwmPeriod_us * b
    \<and> uint pwmPeriod_us * b \<le> 1023000 \<and> (1023000 :: int) < 2 ^ 32
    \<and> uint (pulse_width b) = \<lfloor>1000 * real_of_int b / 1023\<rfloor>"
proof -
  have "\<lfloor>real_of_int (1000 * b) / real_of_int 1023\<rfloor> = (1000 * b) div 1023"
    by (rule floor_divide_of_int_eq)
  then have "uint (pulse_width b) = \<lfloor>1000 * real_of_int b / 1023\<rfloor>"
    by (simp add: pulse_width_uint [OF assms])
  moreover have "uint (pwmPeriod_us * word_of_int b) = uint pwmPeriod_us * b"
    by (simp add: pulse_product [OF assms]) (simp add: pwmPeriod_us_def)
  moreover have "uint pwmPeriod_us * b \<le> 1023000"
    using assms by (simp add: pwmPeriod_us_def)
  ultimately show ?thesis by simp
qed

theorem pulse_width_no_overflow_witness:
  "(0 :: int) \<le> 1023 \<and> (1023 :: int) \<le> 1023
   \<and> uint (pwmPeriod_us * word_of_int 1023) = 1023000
   \<and> uint (pulse_width 1023) = 1000"
proof -
  have h: "(0 :: int) \<le> 1023" "(1023 :: int) \<le> 1023"
    by simp_all
  from pulse_width_no_overflow [OF h] show ?thesis
    by (simp add: pwmPeriod_us_def)
qed

end
